theory Spec2Isabelle
  imports Main "HOL-Library.AList" "HOL-Library.Multiset"
begin

section \<open>Text primitives used by \<^verbatim>\<open>app.py\<close>\<close>

text \<open>
  A Python \<^verbatim>\<open>str\<close> is a sequence of code points. The model works on \<^typ>\<open>string\<close>,
  whose characters are the code points below 256 (Latin-1), so \<^const>\<open>length\<close> counts
  what Python's \<^verbatim>\<open>len\<close> counts on such a text.
\<close>

definition is_space :: "char \<Rightarrow> bool" where
  \<comment> \<open>\<^verbatim>\<open>\s\<close> of a str pattern and \<^verbatim>\<open>str.isspace\<close>: tab, LF, VT, FF, CR,
      the separators 0x1c..0x1f, space, NEL (0x85) and the no-break space (0xa0).\<close>
  "is_space c =
     (let k = (of_char c :: nat)
      in (9 \<le> k \<and> k \<le> 13) \<or> (28 \<le> k \<and> k \<le> 32) \<or> k = 133 \<or> k = 160)"

definition is_terminator :: "char \<Rightarrow> bool" where
  \<comment> \<open>the class \<^verbatim>\<open>[.!?]\<close>\<close>
  "is_terminator c = (c = CHR ''.'' \<or> c = CHR ''!'' \<or> c = CHR ''?'')"

definition is_alpha :: "char \<Rightarrow> bool" where
  \<comment> \<open>the class \<^verbatim>\<open>[a-zA-Z]\<close>\<close>
  "is_alpha c =
     (let k = (of_char c :: nat)
      in (97 \<le> k \<and> k \<le> 122) \<or> (65 \<le> k \<and> k \<le> 90))"

definition lower_char :: "char \<Rightarrow> char" where
  \<comment> \<open>\<^verbatim>\<open>str.lower\<close> on one code point below 256: A..Z and the capitals 0xc0..0xde
      (the multiplication sign 0xd7 apart) move up by 32.\<close>
  "lower_char c =
     (let k = (of_char c :: nat)
      in if (65 \<le> k \<and> k \<le> 90) \<or> (192 \<le> k \<and> k \<le> 222 \<and> k \<noteq> 215)
         then char_of (k + 32) else c)"

definition lower :: "string \<Rightarrow> string" where
  "lower s = map lower_char s"

definition strip :: "string \<Rightarrow> string" where
  \<comment> \<open>\<^verbatim>\<open>str.strip()\<close>: leading and trailing whitespace removed\<close>
  "strip s = rev (dropWhile is_space (rev (dropWhile is_space s)))"

fun join :: "string \<Rightarrow> string list \<Rightarrow> string" where
  \<comment> \<open>\<^verbatim>\<open>sep.join(xs)\<close>\<close>
  "join sep [] = []"
| "join sep [x] = x"
| "join sep (x # y # ys) = x @ sep @ join sep (y # ys)"

definition py_prefix :: "int \<Rightarrow> string \<Rightarrow> string" where
  \<comment> \<open>the slice \<^verbatim>\<open>s[:m]\<close>; a negative \<^verbatim>\<open>m\<close> counts from the end\<close>
  "py_prefix m s =
     (if 0 \<le> m then take (nat m) s else take (length s - nat (- m)) s)"

subsection \<open>The two regular expressions of the summarizer\<close>

text \<open>
  \<^verbatim>\<open>re.split(r'(?<=[.!?])\s+', text)\<close>. A match starts at a whitespace character whose
  left neighbour is one of \<^verbatim>\<open>. ! ?\<close> and takes the whole whitespace run (\<^verbatim>\<open>\s+\<close> is
  greedy and nothing follows it). The scan goes left to right; the pieces between the
  matches are returned, the terminator staying with the piece on its left. The first
  argument is the piece read so far.
\<close>

function split_from :: "string \<Rightarrow> string \<Rightarrow> string list" where
  "split_from cur [] = [cur]"
| "split_from cur [c] = [cur @ [c]]"
| "split_from cur (c # d # cs) =
     (if is_terminator c \<and> is_space d
      then (cur @ [c]) # split_from [] (dropWhile is_space cs)
      else split_from (cur @ [c]) (d # cs))"
  by pat_completeness auto
termination
  by (relation "measure (\<lambda>(cur, s). length s)")
     (auto intro: le_imp_less_Suc le_SucI length_dropWhile_le)

definition split_sentences :: "string \<Rightarrow> string list" where
  "split_sentences text = split_from [] text"

text \<open>
  \<^verbatim>\<open>re.findall(r"[a-zA-Z]+", s)\<close>: the maximal runs of ASCII letters, left to right.
  The first argument is the run read so far.
\<close>

fun words_from :: "string \<Rightarrow> string \<Rightarrow> string list" where
  "words_from cur [] = (if cur = [] then [] else [cur])"
| "words_from cur (c # cs) =
     (if is_alpha c then words_from (cur @ [c]) cs
      else (if cur = [] then [] else [cur]) @ words_from [] cs)"

definition findall_alpha :: "string \<Rightarrow> string list" where
  "findall_alpha s = words_from [] s"

section \<open>Dictionaries and \<^verbatim>\<open>heapq.nlargest\<close>\<close>

text \<open>
  A Python dict keeps its keys in insertion order and an assignment to a key already
  present keeps the key's place: this is \<^const>\<open>AList.update\<close> on an association list.
\<close>

type_synonym ('k, 'v) dict = "('k \<times> 'v) list"

definition dict_get :: "('k, 'v) dict \<Rightarrow> 'k \<Rightarrow> 'v \<Rightarrow> 'v" where
  \<comment> \<open>\<^verbatim>\<open>d.get(k, default)\<close>\<close>
  "dict_get d k dflt = (case map_of d k of Some v \<Rightarrow> v | None \<Rightarrow> dflt)"

definition dict_keys :: "('k, 'v) dict \<Rightarrow> 'k list" where
  \<comment> \<open>iterating a dict yields its keys in insertion order\<close>
  "dict_keys d = map fst d"

definition nlargest :: "int \<Rightarrow> 'a list \<Rightarrow> ('a \<Rightarrow> int) \<Rightarrow> 'a list" where
  \<comment> \<open>\<^verbatim>\<open>heapq.nlargest(n, xs, key)\<close> is \<^verbatim>\<open>sorted(xs, key=key, reverse=True)[:n]\<close>:
      a stable sort by decreasing key, so that equal keys keep the order of \<^verbatim>\<open>xs\<close>;
      for \<^verbatim>\<open>n \<le> 0\<close> the result is empty.\<close>
  "nlargest n xs key = take (nat n) (sort_key (\<lambda>x. - key x) xs)"

section \<open>\<^verbatim>\<open>textrank_summarize\<close>\<close>

definition word_freq :: "string list \<Rightarrow> (string, int) dict" where
  \<comment> \<open>\<^verbatim>\<open>for w in words: freq[w] = freq.get(w, 0) + 1\<close>\<close>
  "word_freq ws = fold (\<lambda>w freq. AList.update w (dict_get freq w 0 + 1) freq) ws []"

definition sentence_score :: "(string, int) dict \<Rightarrow> string \<Rightarrow> int" where
  \<comment> \<open>\<^verbatim>\<open>sum(freq.get(w, 0) for w in re.findall(r"[a-zA-Z]+", s.lower()))\<close>\<close>
  "sentence_score freq s = sum_list (map (\<lambda>w. dict_get freq w 0) (findall_alpha (lower s)))"

definition sentence_scores :: "(string, int) dict \<Rightarrow> string list \<Rightarrow> (string, int) dict" where
  \<comment> \<open>\<^verbatim>\<open>for s in sentences: scores[s] = score\<close>\<close>
  "sentence_scores freq ss = fold (\<lambda>s scores. AList.update s (sentence_score freq s) scores) ss []"

definition textrank_best :: "string \<Rightarrow> int \<Rightarrow> string list" where
  \<comment> \<open>the list \<^verbatim>\<open>best\<close> of lines 74 to 86\<close>
  "textrank_best text n_sentences =
     (let sentences = split_sentences text;
          words = findall_alpha (lower text);
          freq = word_freq words;
          scores = sentence_scores freq sentences
      in nlargest n_sentences (dict_keys scores) (\<lambda>s. dict_get scores s 0))"

definition textrank_summarize :: "string \<Rightarrow> int \<Rightarrow> string" where
  "textrank_summarize text n_sentences =
     (if int (length (split_sentences text)) \<le> n_sentences then text
      else join '' '' (textrank_best text n_sentences))"

section \<open>\<^verbatim>\<open>extract_article_text\<close>\<close>

text \<open>
  The parse tree that \<^verbatim>\<open>BeautifulSoup(resp.text, "html.parser")\<close> builds. The parser is a
  library; the model starts from its result. A \<^verbatim>\<open>Tag\<close> has a name and its contents in
  document order (attributes play no part in \<^verbatim>\<open>app.py\<close>); a \<^verbatim>\<open>NavigableString\<close> is a text
  node; \<^verbatim>\<open>Comment\<close> stands for the string kinds that \<^verbatim>\<open>get_text\<close> and \<^verbatim>\<open>stripped_strings\<close>
  skip (comments, declarations, doctypes, processing instructions). The soup itself is
  the list of its top-level nodes.
\<close>

datatype node = Tag string "node list" | NavigableString string | Comment string

type_synonym soup = "node list"

fun nodes :: "node \<Rightarrow> node list" where
  \<comment> \<open>a node and everything below it, in document order\<close>
  "nodes (Tag name kids) = Tag name kids # concat (map nodes kids)"
| "nodes (NavigableString s) = [NavigableString s]"
| "nodes (Comment s) = [Comment s]"

definition descendants :: "node list \<Rightarrow> node list" where
  \<comment> \<open>\<^verbatim>\<open>.descendants\<close> of an element with the given contents\<close>
  "descendants kids = concat (map nodes kids)"

fun named :: "string list \<Rightarrow> node \<Rightarrow> bool" where
  "named names (Tag name kids) = (name \<in> set names)"
| "named names (NavigableString s) = False"
| "named names (Comment s) = False"

definition find_all :: "string list \<Rightarrow> node list \<Rightarrow> node list" where
  \<comment> \<open>\<^verbatim>\<open>el.find_all(names)\<close>: the descendant tags with one of the names, in document order\<close>
  "find_all names kids = filter (named names) (descendants kids)"

fun contents :: "node \<Rightarrow> node list" where
  "contents (Tag name kids) = kids"
| "contents (NavigableString s) = []"
| "contents (Comment s) = []"

fun prune :: "string list \<Rightarrow> node \<Rightarrow> node" where
  "prune names (Tag name kids) =
     Tag name (map (prune names) (filter (\<lambda>k. \<not> named names k) kids))"
| "prune names (NavigableString s) = NavigableString s"
| "prune names (Comment s) = Comment s"

definition decompose_all :: "string list \<Rightarrow> soup \<Rightarrow> soup" where
  \<comment> \<open>\<^verbatim>\<open>for t in soup(names): t.decompose()\<close>: every tag with one of the names leaves
      the tree with its whole subtree\<close>
  "decompose_all names soup = map (prune names) (filter (\<lambda>k. \<not> named names k) soup)"

definition removed_tags :: "string list" where
  "removed_tags = [''script'', ''style'', ''noscript'', ''iframe'', ''header'', ''footer'', ''nav'']"

definition block_tags :: "string list" where
  "block_tags = [''article'', ''div'', ''section'', ''main'']"

fun text_of :: "node \<Rightarrow> string list" where
  "text_of (NavigableString s) = [s]"
| "text_of (Tag name kids) = []"
| "text_of (Comment s) = []"

definition stripped_strings :: "node list \<Rightarrow> string list" where
  \<comment> \<open>\<^verbatim>\<open>el.stripped_strings\<close>: each text node below \<^verbatim>\<open>el\<close>, stripped; empty ones dropped\<close>
  "stripped_strings kids =
     filter (\<lambda>s. s \<noteq> []) (map strip (concat (map text_of (descendants kids))))"

definition get_text :: "string \<Rightarrow> node \<Rightarrow> string" where
  \<comment> \<open>\<^verbatim>\<open>el.get_text(sep, strip=True)\<close>\<close>
  "get_text sep el = join sep (stripped_strings (contents el))"

definition soup_body :: "soup \<Rightarrow> node option" where
  \<comment> \<open>\<^verbatim>\<open>soup.body\<close> is \<^verbatim>\<open>soup.find("body")\<close>: the first tag named body, or None.
      A tag is truthy whatever its contents, so \<^verbatim>\<open>if body\<close> asks whether there is one.\<close>
  "soup_body soup = (case find_all [''body''] soup of [] \<Rightarrow> None | b # _ \<Rightarrow> Some b)"

text \<open>\<^verbatim>\<open>re.sub(r"\s+", " ", s)\<close>: every maximal whitespace run becomes one space.\<close>

function collapse_ws :: "string \<Rightarrow> string" where
  "collapse_ws [] = []"
| "collapse_ws (c # cs) =
     (if is_space c then CHR '' '' # collapse_ws (dropWhile is_space cs)
      else c # collapse_ws cs)"
  by pat_completeness auto
termination
  by (relation "measure length") (auto intro: le_imp_less_Suc length_dropWhile_le)

definition candidate_text :: "node \<Rightarrow> string" where
  \<comment> \<open>lines 55 and 56\<close>
  "candidate_text c = strip (join '' '' (map (get_text '' '') (find_all [''p''] (contents c))))"

definition best_step :: "node \<Rightarrow> string \<times> nat \<Rightarrow> string \<times> nat" where
  \<comment> \<open>one round of the loop of lines 54 to 59 on \<^verbatim>\<open>(best_text, best_len)\<close>\<close>
  "best_step c best =
     (let text = candidate_text c
      in if length text > snd best then (text, length text) else best)"

definition best_text :: "node list \<Rightarrow> string" where
  "best_text candidates = fst (fold best_step candidates ([], 0))"

definition extract_text :: "soup \<Rightarrow> int \<Rightarrow> string" where
  \<comment> \<open>lines 40 to 62, on the parsed page\<close>
  "extract_text soup0 max_chars =
     (let soup = decompose_all removed_tags soup0;
          candidates = find_all block_tags soup
      in case (candidates, soup_body soup) of
           ([], Some body) \<Rightarrow> py_prefix max_chars (join '' '' (stripped_strings (contents body)))
         | _ \<Rightarrow> py_prefix max_chars (strip (collapse_ws (best_text candidates))))"

subsection \<open>The fetch\<close>

datatype request_error = ConnectionError | Timeout

datatype fetch_outcome =
    Fails request_error  \<comment> \<open>\<^verbatim>\<open>requests.get\<close> raises: no response was received\<close>
  | Fetched nat soup     \<comment> \<open>a response with its status code and its parsed body\<close>

datatype exc = HTTPError nat | RequestError request_error

definition raise_for_status :: "nat \<Rightarrow> bool" where
  \<comment> \<open>\<^verbatim>\<open>resp.raise_for_status()\<close> raises \<^verbatim>\<open>HTTPError\<close> for the codes 400 to 599\<close>
  "raise_for_status status = (400 \<le> status \<and> status < 600)"

definition extract_article_text :: "(string \<Rightarrow> fetch_outcome) \<Rightarrow> string \<Rightarrow> int \<Rightarrow> exc + string" where
  "extract_article_text get url max_chars =
     (case get url of
        Fails e \<Rightarrow> Inl (RequestError e)
      | Fetched status soup \<Rightarrow>
          if raise_for_status status then Inl (HTTPError status)
          else Inr (extract_text soup max_chars))"

section \<open>\<^verbatim>\<open>hf_summarize\<close> and the route \<^verbatim>\<open>/api/summarize\<close>\<close>

datatype 'a outcome = Raises | Returns 'a

record world =
  hf_available :: bool  \<comment> \<open>\<^verbatim>\<open>HF_AVAILABLE\<close>: tokenizer and model were loaded at import\<close>
  hf_generate :: "string \<Rightarrow> string outcome"  \<comment> \<open>lines 96 to 98: tokenize, generate, decode\<close>
  http_get :: "string \<Rightarrow> fetch_outcome"  \<comment> \<open>\<^verbatim>\<open>requests.get\<close> followed by the parse\<close>

record request =
  url :: string      \<comment> \<open>\<^verbatim>\<open>data.get("url", "")\<close>, a JSON string\<close>
  prefer_hf :: bool  \<comment> \<open>\<^verbatim>\<open>data.get("prefer_hf", True)\<close>, a JSON boolean\<close>

datatype response =
    Summary string "string option" bool  \<comment> \<open>status 200: article, summary, used_hf\<close>
  | Failure nat string                   \<comment> \<open>the status and the \<^verbatim>\<open>error\<close> field\<close>

fun status :: "response \<Rightarrow> nat" where
  "status (Summary article summary used) = 200"
| "status (Failure code msg) = code"

definition hf_summarize :: "world \<Rightarrow> string \<Rightarrow> string option outcome" where
  "hf_summarize w text =
     (if \<not> hf_available w then Returns None
      else case hf_generate w text of Raises \<Rightarrow> Raises | Returns s \<Rightarrow> Returns (Some s))"

definition falsy :: "string option \<Rightarrow> bool" where
  \<comment> \<open>\<^verbatim>\<open>not summary\<close>: None or the empty string\<close>
  "falsy summary = (case summary of None \<Rightarrow> True | Some s \<Rightarrow> s = [])"

definition api_summarize :: "world \<Rightarrow> request \<Rightarrow> response" where
  "api_summarize w req =
     (let u = strip (url req)
      in if u = [] then Failure 400 ''no url provided''
         else case extract_article_text (http_get w) u 20000 of
                Inl (HTTPError code) \<Rightarrow> Failure 502 ''failed to fetch url''
              | Inl (RequestError e) \<Rightarrow> Failure 500 ''internal error''
              | Inr article \<Rightarrow>
                  if article = [] then Failure 422 ''no article text extracted''
                  else
                    let summary0 =
                          (if prefer_hf req
                           then (case hf_summarize w article of
                                   Raises \<Rightarrow> None | Returns r \<Rightarrow> r)
                           else None);
                        summary =
                          (if falsy summary0 then Some (textrank_summarize article 4)
                           else summary0)
                    in Summary article summary
                         (hf_available w \<and> prefer_hf req \<and> (summary \<noteq> None \<and> hf_available w)))"

section \<open>Notions used to state the properties\<close>

fun firsts :: "'a list \<Rightarrow> 'a list" where
  \<comment> \<open>the distinct elements, each at its first occurrence\<close>
  "firsts [] = []"
| "firsts (x # xs) = x # filter (\<lambda>y. y \<noteq> x) (firsts xs)"

fun first_index :: "'a list \<Rightarrow> 'a \<Rightarrow> nat" where
  \<comment> \<open>the position of the first occurrence\<close>
  "first_index [] x = 0"
| "first_index (y # ys) x = (if x = y then 0 else Suc (first_index ys x))"

definition text_score :: "string \<Rightarrow> string \<Rightarrow> int" where
  \<comment> \<open>the score of a sentence against the word frequencies of the whole text\<close>
  "text_score text s = sentence_score (word_freq (findall_alpha (lower text))) s"

definition precedes :: "string \<Rightarrow> string \<Rightarrow> string \<Rightarrow> bool" where
  \<comment> \<open>higher score first; among equal scores, the sentence that occurs first\<close>
  "precedes text a b =
     (text_score text b < text_score text a \<or>
      (text_score text a = text_score text b \<and>
       first_index (split_sentences text) a < first_index (split_sentences text) b))"



fun has_ws_run :: "string \<Rightarrow> bool" where
  \<comment> \<open>two whitespace characters in a row somewhere\<close>
  "has_ws_run (a # b # cs) = ((is_space a \<and> is_space b) \<or> has_ws_run (b # cs))"
| "has_ws_run [a] = False"
| "has_ws_run [] = False"

definition leading_ws :: "string \<Rightarrow> bool" where
  "leading_ws s = (case s of [] \<Rightarrow> False | c # _ \<Rightarrow> is_space c)"

definition trailing_ws :: "string \<Rightarrow> bool" where
  "trailing_ws s = leading_ws (rev s)"

section \<open>Properties of the summarizer\<close>

subsection \<open>Insertion order of the score dictionary\<close>


lemma set_firsts: "set (firsts xs) = set xs"
  by (induction xs) auto

lemma distinct_firsts: "distinct (firsts xs)"
  by (induction xs) auto

lemma length_firsts: "length (firsts xs) = card (set xs)"
  using distinct_card [OF distinct_firsts, of xs] by (simp add: set_firsts)

lemma mset_firsts: "mset (firsts xs) \<subseteq># mset xs"
proof (induction xs)
  case Nil
  show ?case by simp
next
  case (Cons x xs)
  have "filter_mset (\<lambda>y. y \<noteq> x) (mset (firsts xs)) \<subseteq># mset (firsts xs)"
    by simp
  then have "filter_mset (\<lambda>y. y \<noteq> x) (mset (firsts xs)) \<subseteq># mset xs"
    using Cons by (rule subset_mset.order_trans)
  then show ?case by simp
qed

lemma firsts_sorted_by_first_index:
  "sorted_wrt (\<lambda>a b. first_index xs a < first_index xs b) (firsts xs)"
proof (induction xs)
  case Nil
  show ?case by simp
next
  case (Cons x xs)
  have "sorted_wrt (\<lambda>a b. first_index xs a < first_index xs b) (filter (\<lambda>y. y \<noteq> x) (firsts xs))"
    using Cons by (rule sorted_wrt_filter)
  then have "sorted_wrt (\<lambda>a b. first_index (x # xs) a < first_index (x # xs) b)
               (filter (\<lambda>y. y \<noteq> x) (firsts xs))"
    by (rule sorted_wrt_mono_rel [rotated]) auto
  then show ?case by auto
qed

lemma keys_fold_update:
  "map fst (fold (\<lambda>s d. AList.update s (f s) d) ss d) =
     map fst d @ filter (\<lambda>s. s \<notin> fst ` set d) (firsts ss)"
proof (induction ss arbitrary: d)
  case Nil
  show ?case by simp
next
  case (Cons x xs)
  show ?case
  proof (cases "x \<in> fst ` set d")
    case True
    then have "filter (\<lambda>s. s \<notin> fst ` set d) (filter (\<lambda>y. y \<noteq> x) (firsts xs)) =
               filter (\<lambda>s. s \<notin> fst ` set d) (firsts xs)"
      by (auto intro: filter_cong)
    with True show ?thesis
      by (simp add: Cons update_keys dom_update dom_map_of_conv_image_fst)
  next
    case False
    have "filter (\<lambda>s. s \<noteq> x \<and> s \<notin> fst ` set d) (firsts xs) =
          filter (\<lambda>s. s \<notin> fst ` set d) (filter (\<lambda>y. y \<noteq> x) (firsts xs))"
      by (auto intro: filter_cong)
    with False show ?thesis
      by (simp add: Cons update_keys dom_update dom_map_of_conv_image_fst)
  qed
qed

lemma map_of_fold_update:
  "map_of (fold (\<lambda>s d. AList.update s (f s) d) ss d) s =
     (if s \<in> set ss then Some (f s) else map_of d s)"
  by (induction ss arbitrary: d) (auto simp: update_conv')

lemma insort_key_cong_set:
  "\<forall>y \<in> insert x (set ys). f y = g y \<Longrightarrow> insort_key f x ys = insort_key g x ys"
  by (induction ys) auto

lemma sort_key_cong_set:
  "\<forall>y \<in> set xs. f y = g y \<Longrightarrow> sort_key f xs = sort_key g xs"
proof (induction xs)
  case Nil
  show ?case by simp
next
  case (Cons x xs)
  then have "sort_key f xs = sort_key g xs" by simp
  moreover have "insort_key f x (sort_key g xs) = insort_key g x (sort_key g xs)"
    using Cons.prems by (intro insort_key_cong_set) simp
  ultimately show ?case by simp
qed

lemma textrank_best_eq:
  "textrank_best text n =
     take (nat n) (sort_key (\<lambda>s. - text_score text s) (firsts (split_sentences text)))"
proof -
  let ?ss = "split_sentences text"
  let ?freq = "word_freq (findall_alpha (lower text))"
  let ?scores = "sentence_scores ?freq ?ss"
  have keys: "dict_keys ?scores = firsts ?ss"
    by (simp add: dict_keys_def sentence_scores_def keys_fold_update)
  have "\<forall>s \<in> set (firsts ?ss). - dict_get ?scores s 0 = - text_score text s"
    by (simp add: set_firsts dict_get_def sentence_scores_def map_of_fold_update text_score_def)
  then have "sort_key (\<lambda>s. - dict_get ?scores s 0) (firsts ?ss) =
             sort_key (\<lambda>s. - text_score text s) (firsts ?ss)"
    by (rule sort_key_cong_set)
  then show ?thesis
    by (simp add: textrank_best_def Let_def nlargest_def keys)
qed

lemma insort_key_sorted_lex:
  fixes key :: "'a \<Rightarrow> int"
  assumes "sorted_wrt (\<lambda>a b. key a < key b \<or> (key a = key b \<and> pos a < (pos b :: nat))) ys"
    and "\<forall>y \<in> set ys. pos x < pos y"
  shows "sorted_wrt (\<lambda>a b. key a < key b \<or> (key a = key b \<and> pos a < pos b)) (insort_key key x ys)"
  using assms
proof (induction ys)
  case Nil
  show ?case by simp
next
  case (Cons y ys)
  show ?case
  proof (cases "key x \<le> key y")
    case True
    with Cons.prems show ?thesis by fastforce
  next
    case False
    with Cons show ?thesis by (auto simp: set_insort_key)
  qed
qed

lemma sort_key_sorted_lex:
  fixes key :: "'a \<Rightarrow> int"
  assumes "sorted_wrt (\<lambda>a b. pos a < (pos b :: nat)) xs"
  shows "sorted_wrt (\<lambda>a b. key a < key b \<or> (key a = key b \<and> pos a < pos b)) (sort_key key xs)"
  using assms
proof (induction xs)
  case Nil
  show ?case by simp
next
  case (Cons x xs)
  then show ?case by (simp add: insort_key_sorted_lex)
qed

lemma ranked_sorted:
  "sorted_wrt (precedes text)
     (sort_key (\<lambda>s. - text_score text s) (firsts (split_sentences text)))"
proof -
  have "sorted_wrt (\<lambda>a b. - text_score text a < - text_score text b \<or>
           (- text_score text a = - text_score text b \<and>
            first_index (split_sentences text) a < first_index (split_sentences text) b))
         (sort_key (\<lambda>s. - text_score text s) (firsts (split_sentences text)))"
    by (rule sort_key_sorted_lex) (rule firsts_sorted_by_first_index)
  then show ?thesis
    by (rule sorted_wrt_mono_rel [rotated]) (auto simp: precedes_def)
qed

lemma length_join:
  "length (join sep xs) = sum_list (map length xs) + (length xs - 1) * length sep"
  by (induction sep xs rule: join.induct) auto

lemma split_from_nonempty: "split_from cur s \<noteq> []"
  by (induction cur s rule: split_from.induct) auto

lemma split_from_length:
  "sum_list (map length (split_from cur s)) + (length (split_from cur s) - 1)
     \<le> length cur + length s"
proof (induction cur s rule: split_from.induct)
  case (1 cur)
  show ?case by simp
next
  case (2 cur c)
  show ?case by simp
next
  case (3 cur c d cs)
  show ?case
  proof (cases "is_terminator c \<and> is_space d")
    case True
    let ?rest = "split_from [] (dropWhile is_space cs)"
    have "sum_list (map length ?rest) + (length ?rest - 1) \<le> length (dropWhile is_space cs)"
      using 3(1) True by simp
    moreover have "length (dropWhile is_space cs) \<le> length cs"
      by (rule length_dropWhile_le)
    moreover have "0 < length ?rest"
      using split_from_nonempty [of "[]" "dropWhile is_space cs"] by simp
    ultimately show ?thesis using True by simp
  next
    case False
    with 3(2) show ?thesis by auto
  qed
qed

lemma mset_textrank_best: "mset (textrank_best text n) \<subseteq># mset (split_sentences text)"
proof -
  let ?L = "sort_key (\<lambda>s. - text_score text s) (firsts (split_sentences text))"
  have "mset (take (nat n) ?L) \<subseteq># mset (take (nat n) ?L) + mset (drop (nat n) ?L)"
    by simp
  also have "\<dots> = mset ?L"
    by (simp flip: mset_append)
  also have "\<dots> = mset (firsts (split_sentences text))"
    by simp
  also have "\<dots> \<subseteq># mset (split_sentences text)"
    by (rule mset_firsts)
  finally show ?thesis by (simp add: textrank_best_eq)
qed

lemma sum_length_mset_mono:
  assumes "mset xs \<subseteq># mset ys"
  shows "sum_list (map length xs) \<le> sum_list (map length ys)"
proof -
  from assms obtain C where C: "mset ys = mset xs + C"
    by (auto simp: mset_subset_eq_exists_conv)
  have "sum_list (map length ys) = sum_mset (image_mset length (mset ys))"
    by (simp flip: sum_mset_sum_list)
  also have "\<dots> = sum_mset (image_mset length (mset xs)) + sum_mset (image_mset length C)"
    by (simp add: C)
  also have "sum_mset (image_mset length (mset xs)) = sum_list (map length xs)"
    by (simp flip: sum_mset_sum_list)
  finally show ?thesis by simp
qed

subsection \<open>Short texts\<close>

text \<open>
  C10. When the sentence split yields at most \<^verbatim>\<open>n_sentences\<close> sentences,
  \<^verbatim>\<open>textrank_summarize\<close> returns the text unchanged. The empty text splits into one
  empty sentence, and the empty text is returned (whatever \<^verbatim>\<open>n_sentences\<close> is).
\<close>

theorem textrank_short_text_unchanged:
  "(int (length (split_sentences text)) \<le> n_sentences \<longrightarrow>
      textrank_summarize text n_sentences = text) \<and>
   split_sentences [] = [[]] \<and>
   textrank_summarize [] n_sentences = []"
proof -
  have "textrank_summarize [] n_sentences = []"
    by (cases "1 \<le> n_sentences")
       (simp_all add: textrank_summarize_def textrank_best_def split_sentences_def
          sentence_scores_def nlargest_def dict_keys_def)
  then show ?thesis
    by (simp add: textrank_summarize_def split_sentences_def)
qed

theorem textrank_short_text_unchanged_witness:
  "int (length (split_sentences ''Hello there. Bye now.'')) \<le> 4 \<and>
   textrank_summarize ''Hello there. Bye now.'' 4 = ''Hello there. Bye now.'' \<and>
   split_sentences [] = [[]] \<and> textrank_summarize [] 4 = []"
proof -
  have h: "int (length (split_sentences ''Hello there. Bye now.'')) \<le> 4"
    by code_simp
  with textrank_short_text_unchanged [of "''Hello there. Bye now.''" 4] show ?thesis
    by blast
qed

subsection \<open>The summary is never longer than the text\<close>

text \<open>
  C6. The length of \<^verbatim>\<open>textrank_summarize(text, n_sentences)\<close> is at most the length of
  \<^verbatim>\<open>text\<close>, for every text and every \<^verbatim>\<open>n_sentences\<close> (the positive ones in particular).
\<close>

theorem textrank_never_expands:
  "length (textrank_summarize text n_sentences) \<le> length text"
proof (cases "int (length (split_sentences text)) \<le> n_sentences")
  case True
  then show ?thesis by (simp add: textrank_summarize_def)
next
  case False
  let ?ss = "split_sentences text"
  let ?best = "textrank_best text n_sentences"
  have incl: "mset ?best \<subseteq># mset ?ss" by (rule mset_textrank_best)
  have "length ?best \<le> length ?ss"
    using size_mset_mono [OF incl] by simp
  moreover have "sum_list (map length ?best) \<le> sum_list (map length ?ss)"
    using incl by (rule sum_length_mset_mono)
  moreover have "sum_list (map length ?ss) + (length ?ss - 1) \<le> length text"
    using split_from_length [of "[]" "text"] by (simp add: split_sentences_def)
  ultimately have "sum_list (map length ?best) + (length ?best - 1) \<le> length text"
    by linarith
  with False show ?thesis
    by (simp add: textrank_summarize_def length_join)
qed

theorem textrank_never_expands_witness:
  "length (textrank_summarize ''Dogs bark. Cats purr. Cats nap. Cats are cats.'' 3) = 35 \<and>
   length ''Dogs bark. Cats purr. Cats nap. Cats are cats.'' = 46 \<and>
   length (textrank_summarize ''Dogs bark. Cats purr. Cats nap. Cats are cats.'' 3)
     \<le> length ''Dogs bark. Cats purr. Cats nap. Cats are cats.''"
proof -
  have "length (textrank_summarize ''Dogs bark. Cats purr. Cats nap. Cats are cats.'' 3) = 35"
    by code_simp
  moreover have "length ''Dogs bark. Cats purr. Cats nap. Cats are cats.'' = 46"
    by simp
  ultimately show ?thesis
    using textrank_never_expands [of "''Dogs bark. Cats purr. Cats nap. Cats are cats.''" 3]
    by blast
qed

subsection \<open>How many sentences are selected\<close>

text \<open>
  C1, as stated, fails: the scores are kept in a dictionary keyed by the sentence, so
  equal sentences are one candidate. The text \<^verbatim>\<open>A. A. A. B.\<close> splits into four sentences,
  more than three, and its summary for \<^verbatim>\<open>n_sentences = 3\<close> is \<^verbatim>\<open>A. B.\<close>, which is not the
  join of three sentences of the split.
\<close>

theorem textrank_exactly_n_counterexample:
  "int 3 < int (length (split_sentences ''A. A. A. B.'')) \<and>
   textrank_summarize ''A. A. A. B.'' 3 = ''A. B.'' \<and>
   \<not> (\<exists>best. length best = 3 \<and> set best \<subseteq> set (split_sentences ''A. A. A. B.'') \<and>
          textrank_summarize ''A. A. A. B.'' 3 = join '' '' best)"
proof -
  have ss: "split_sentences ''A. A. A. B.'' = [''A.'', ''A.'', ''A.'', ''B.'']"
    by code_simp
  have out: "textrank_summarize ''A. A. A. B.'' 3 = ''A. B.''"
    by code_simp
  have two: "\<And>s. s \<in> set [''A.'', ''A.'', ''A.'', ''B.''] \<Longrightarrow> length s = 2"
    by auto
  have "\<not> (\<exists>best. length best = 3 \<and> set best \<subseteq> set [''A.'', ''A.'', ''A.'', ''B.''] \<and>
              ''A. B.'' = join '' '' best)"
  proof
    assume "\<exists>best. length best = 3 \<and> set best \<subseteq> set [''A.'', ''A.'', ''A.'', ''B.''] \<and>
              ''A. B.'' = join '' '' best"
    then obtain best where len: "length best = 3"
      and incl: "set best \<subseteq> set [''A.'', ''A.'', ''A.'', ''B.'']"
      and eq: "''A. B.'' = join '' '' best" by blast
    have "sum_list (map length best) = 2 * length best"
      using incl two by (induction best) auto
    then have "length (join '' '' best) = 8"
      by (simp add: length_join len)
    moreover have "length ''A. B.'' = 5" by simp
    ultimately show False using eq by simp
  qed
  with ss out show ?thesis by simp
qed

text \<open>
  C1, amended. When the split yields more than \<^verbatim>\<open>n_sentences\<close> sentences, the result is
  the single-space join of the list \<^verbatim>\<open>best\<close>, whose members are pairwise distinct
  sentences of the split, and whose length is the smaller of \<^verbatim>\<open>n_sentences\<close> (0 when
  negative) and the number of distinct sentences of the split.
\<close>

theorem textrank_selects_distinct_sentences:
  assumes "n_sentences < int (length (split_sentences text))"
  shows "textrank_summarize text n_sentences = join '' '' (textrank_best text n_sentences) \<and>
         distinct (textrank_best text n_sentences) \<and>
         set (textrank_best text n_sentences) \<subseteq> set (split_sentences text) \<and>
         length (textrank_best text n_sentences) =
           min (nat n_sentences) (card (set (split_sentences text)))"
proof -
  have "distinct (textrank_best text n_sentences)"
    by (simp add: textrank_best_eq distinct_firsts)
  moreover have "set (textrank_best text n_sentences) \<subseteq> set (split_sentences text)"
    using set_take_subset [of "nat n_sentences"
        "sort_key (\<lambda>s. - text_score text s) (firsts (split_sentences text))"]
    by (simp add: textrank_best_eq set_firsts)
  moreover have "length (textrank_best text n_sentences) =
      min (nat n_sentences) (card (set (split_sentences text)))"
    by (simp add: textrank_best_eq length_firsts min.commute)
  ultimately show ?thesis
    using assms by (simp add: textrank_summarize_def)
qed

theorem textrank_selects_distinct_sentences_witness:
  "(3::int) < int (length (split_sentences ''A. A. A. B.'')) \<and>
   textrank_summarize ''A. A. A. B.'' 3 = join '' '' (textrank_best ''A. A. A. B.'' 3) \<and>
   textrank_best ''A. A. A. B.'' 3 = [''A.'', ''B.''] \<and>
   length (textrank_best ''A. A. A. B.'' 3) = min (nat 3) (card (set (split_sentences ''A. A. A. B.'')))"
proof -
  have h: "(3::int) < int (length (split_sentences ''A. A. A. B.''))"
    by code_simp
  have b: "textrank_best ''A. A. A. B.'' 3 = [''A.'', ''B.'']"
    by code_simp
  from textrank_selects_distinct_sentences [OF h] h b show ?thesis
    by blast
qed

subsection \<open>The order of the selected sentences\<close>

text \<open>
  C5. When the split yields more than \<^verbatim>\<open>n_sentences\<close> sentences, the summary is the
  single-space join of the selected sentences in selection order: a sentence comes
  before another when its score is higher, or when the scores are equal and its first
  occurrence in the text is earlier (\<^const>\<open>precedes\<close>); this is not the document order.
  Every selected sentence precedes, in that sense, every sentence left out.
\<close>

theorem textrank_score_order:
  assumes "n_sentences < int (length (split_sentences text))"
  shows "textrank_summarize text n_sentences = join '' '' (textrank_best text n_sentences) \<and>
         sorted_wrt (precedes text) (textrank_best text n_sentences) \<and>
         (\<forall>b \<in> set (textrank_best text n_sentences).
            \<forall>s \<in> set (split_sentences text) - set (textrank_best text n_sentences).
              precedes text b s)"
proof -
  let ?L = "sort_key (\<lambda>s. - text_score text s) (firsts (split_sentences text))"
  let ?k = "nat n_sentences"
  have best: "textrank_best text n_sentences = take ?k ?L"
    by (rule textrank_best_eq)
  have "sorted_wrt (precedes text) (take ?k ?L @ drop ?k ?L)"
    using ranked_sorted [of "text"] by simp
  then have srt: "sorted_wrt (precedes text) (take ?k ?L)"
    and cross: "\<forall>b \<in> set (take ?k ?L). \<forall>s \<in> set (drop ?k ?L). precedes text b s"
    unfolding sorted_wrt_append by blast+
  have "set (split_sentences text) = set (take ?k ?L) \<union> set (drop ?k ?L)"
    using set_append [of "take ?k ?L" "drop ?k ?L"] by (simp add: set_firsts)
  with cross have "\<forall>b \<in> set (take ?k ?L).
      \<forall>s \<in> set (split_sentences text) - set (take ?k ?L). precedes text b s"
    by blast
  with srt assms show ?thesis
    by (simp add: textrank_summarize_def best)
qed

theorem textrank_score_order_witness:
  "(3::int) < int (length (split_sentences ''Dogs bark. Cats purr. Cats nap. Cats are cats.'')) \<and>
   textrank_summarize ''Dogs bark. Cats purr. Cats nap. Cats are cats.'' 3
     = ''Cats are cats. Cats purr. Cats nap.'' \<and>
   sorted_wrt (precedes ''Dogs bark. Cats purr. Cats nap. Cats are cats.'')
     [''Cats are cats.'', ''Cats purr.'', ''Cats nap.'']"
proof -
  let ?t = "''Dogs bark. Cats purr. Cats nap. Cats are cats.''"
  have h: "(3::int) < int (length (split_sentences ?t))"
    by code_simp
  have b: "textrank_best ?t 3 = [''Cats are cats.'', ''Cats purr.'', ''Cats nap.'']"
    by code_simp
  have j: "join '' '' [''Cats are cats.'', ''Cats purr.'', ''Cats nap.''] = ''Cats are cats. Cats purr. Cats nap.''"
    by simp
  from textrank_score_order [OF h] show ?thesis
    unfolding b j using h by blast
qed


section \<open>Properties of the extractor\<close>

lemma hello_page_text:
  "extract_text [Tag ''div'' [Tag ''p'' [NavigableString ''Hello world.'']]] 20000 = ''Hello world.''"
  by code_simp

subsection \<open>Whitespace\<close>

lemma has_ws_run_Cons: "has_ws_run (a # xs) = ((is_space a \<and> leading_ws xs) \<or> has_ws_run xs)"
  by (cases xs) (simp_all add: leading_ws_def)

lemma leading_ws_Cons: "leading_ws (a # xs) = is_space a"
  by (simp add: leading_ws_def)

lemma leading_ws_Nil: "\<not> leading_ws []"
  by (simp add: leading_ws_def)

lemma leading_ws_append: "leading_ws (xs @ ys) = (if xs = [] then leading_ws ys else leading_ws xs)"
  by (cases xs) (simp_all add: leading_ws_def)

lemma trailing_ws_Nil: "\<not> trailing_ws []"
  by (simp add: trailing_ws_def leading_ws_def)

lemma trailing_ws_snoc: "trailing_ws (xs @ [a]) = is_space a"
  by (simp add: trailing_ws_def leading_ws_def)

lemma trailing_ws_Cons: "trailing_ws (a # xs) = (if xs = [] then is_space a else trailing_ws xs)"
  by (simp add: trailing_ws_def leading_ws_append leading_ws_Cons)

lemma has_ws_run_append:
  "has_ws_run (xs @ ys) =
     (has_ws_run xs \<or> has_ws_run ys \<or> (trailing_ws xs \<and> leading_ws ys))"
proof (induction xs)
  case Nil
  show ?case by (simp add: trailing_ws_def leading_ws_def)
next
  case (Cons a xs)
  show ?case
    by (auto simp: has_ws_run_Cons Cons leading_ws_append trailing_ws_Cons leading_ws_Nil
          trailing_ws_Nil)
qed

lemma has_ws_run_rev: "has_ws_run (rev xs) = has_ws_run xs"
proof (induction xs)
  case Nil
  show ?case by simp
next
  case (Cons a xs)
  show ?case
    by (auto simp: has_ws_run_append has_ws_run_Cons Cons trailing_ws_def leading_ws_def)
qed

lemma not_leading_dropWhile: "\<not> leading_ws (dropWhile is_space xs)"
  by (induction xs) (simp_all add: leading_ws_def)

lemma has_ws_run_dropWhile: "has_ws_run (dropWhile P xs) \<Longrightarrow> has_ws_run xs"
  using has_ws_run_append [of "takeWhile P xs" "dropWhile P xs"] by simp

lemma has_ws_run_take: "has_ws_run (take k xs) \<Longrightarrow> has_ws_run xs"
  using has_ws_run_append [of "take k xs" "drop k xs"] by simp

lemma leading_ws_take: "leading_ws (take k xs) \<Longrightarrow> leading_ws xs"
  by (cases xs; cases k) (simp_all add: leading_ws_def)

lemma has_ws_run_strip: "has_ws_run (strip s) \<Longrightarrow> has_ws_run s"
proof -
  assume "has_ws_run (strip s)"
  then have "has_ws_run (dropWhile is_space (rev (dropWhile is_space s)))"
    by (simp add: strip_def has_ws_run_rev)
  then have "has_ws_run (rev (dropWhile is_space s))"
    by (rule has_ws_run_dropWhile)
  then have "has_ws_run (dropWhile is_space s)"
    by (simp add: has_ws_run_rev)
  then show "has_ws_run s"
    by (rule has_ws_run_dropWhile)
qed

lemma not_trailing_strip: "\<not> trailing_ws (strip s)"
  by (simp add: trailing_ws_def strip_def not_leading_dropWhile)

lemma not_leading_strip: "\<not> leading_ws (strip s)"
proof (cases "dropWhile is_space s")
  case Nil
  show ?thesis unfolding strip_def Nil by (simp add: leading_ws_def)
next
  case (Cons h t)
  then have h: "\<not> is_space h"
    using not_leading_dropWhile [of s] by (simp add: leading_ws_def)
  then have "dropWhile is_space (rev t @ [h]) = dropWhile is_space (rev t) @ [h]"
    by (simp add: dropWhile_append)
  with Cons h show ?thesis
    by (simp add: strip_def leading_ws_def)
qed

lemma set_strip: "set (strip s) \<subseteq> set s"
  unfolding strip_def
  using set_dropWhileD [of _ is_space "rev (dropWhile is_space s)"] set_dropWhileD [of _ is_space s]
  by auto

lemma leading_ws_collapse: "leading_ws (collapse_ws s) = leading_ws s"
  by (cases s) (simp_all add: leading_ws_def is_space_def)

lemma collapse_ws_no_run: "\<not> has_ws_run (collapse_ws s)"
  by (induction s rule: collapse_ws.induct)
     (simp_all add: has_ws_run_Cons leading_ws_collapse not_leading_dropWhile)

lemma collapse_ws_spaces: "c \<in> set (collapse_ws s) \<Longrightarrow> is_space c \<Longrightarrow> c = CHR '' ''"
  by (induction s rule: collapse_ws.induct) (auto split: if_splits)

lemma py_prefix_take: "\<exists>k. py_prefix m s = take k s"
  by (auto simp: py_prefix_def)

lemma py_prefix_whole: "int (length (py_prefix m s)) < m \<Longrightarrow> py_prefix m s = s"
  by (auto simp: py_prefix_def split: if_splits)

lemma length_py_prefix: "0 \<le> m \<Longrightarrow> length (py_prefix m s) \<le> nat m"
  by (simp add: py_prefix_def)

lemma extract_text_prefix: "\<exists>s. extract_text soup mc = py_prefix mc s"
  by (auto simp: extract_text_def Let_def split: list.splits option.splits)


lemma join_nonempty: "xs \<noteq> [] \<Longrightarrow> last xs \<noteq> [] \<Longrightarrow> join sep xs \<noteq> []"
  by (induction sep xs rule: join.induct) auto

lemma leading_ws_join:
  "xs \<noteq> [] \<Longrightarrow> hd xs \<noteq> [] \<Longrightarrow> leading_ws (join sep xs) = leading_ws (hd xs)"
  by (cases "(sep, xs)" rule: join.cases) (simp_all add: leading_ws_append)

lemma trailing_ws_append:
  "trailing_ws (xs @ ys) = (if ys = [] then trailing_ws xs else trailing_ws ys)"
  by (simp add: trailing_ws_def leading_ws_append)

lemma trailing_ws_join:
  "xs \<noteq> [] \<Longrightarrow> last xs \<noteq> [] \<Longrightarrow> trailing_ws (join sep xs) = trailing_ws (last xs)"
proof (induction sep xs rule: join.induct)
  case (3 sep x y ys)
  then have "join sep (y # ys) \<noteq> []"
    using join_nonempty [of "y # ys" sep] by simp
  with 3 show ?case by (simp add: trailing_ws_append)
qed simp_all

lemma stripped_strings_members:
  "x \<in> set (stripped_strings kids) \<Longrightarrow> x \<noteq> [] \<and> \<not> leading_ws x \<and> \<not> trailing_ws x"
  by (auto simp: stripped_strings_def not_leading_strip not_trailing_strip)

lemma join_stripped_edges:
  "\<not> leading_ws (join '' '' (stripped_strings kids)) \<and>
   \<not> trailing_ws (join '' '' (stripped_strings kids))"
proof (cases "stripped_strings kids = []")
  case True
  then show ?thesis by (simp add: leading_ws_Nil trailing_ws_Nil)
next
  case False
  then have h: "hd (stripped_strings kids) \<in> set (stripped_strings kids)"
    and l: "last (stripped_strings kids) \<in> set (stripped_strings kids)"
    by simp_all
  from stripped_strings_members [OF h] stripped_strings_members [OF l] False
  show ?thesis
    by (simp add: leading_ws_join trailing_ws_join)
qed

lemma extract_text_edges:
  "\<exists>s. extract_text soup mc = py_prefix mc s \<and> \<not> leading_ws s \<and> \<not> trailing_ws s"
  by (auto simp: extract_text_def Let_def join_stripped_edges not_leading_strip
        not_trailing_strip split: list.splits option.splits)

lemma extract_text_not_body:
  "find_all block_tags (decompose_all removed_tags soup) \<noteq> [] \<or>
   soup_body (decompose_all removed_tags soup) = None \<Longrightarrow>
     extract_text soup mc =
       py_prefix mc (strip (collapse_ws (best_text (find_all block_tags (decompose_all removed_tags soup)))))"
  by (auto simp: extract_text_def Let_def split: list.splits option.splits)

text \<open>
  C3, as stated, fails on both return paths. On the candidate path the text is cleaned
  first and cut to \<^verbatim>\<open>max_chars\<close> afterwards, so the cut can end on a space: the page
  \<^verbatim>\<open><div><p>ab cd</p></div>\<close> with \<^verbatim>\<open>max_chars = 3\<close> gives \<^verbatim>\<open>"ab "\<close>. On the body fallback
  the text nodes are stripped and joined, and whitespace inside a text node stays:
  \<^verbatim>\<open><body>a  b</body>\<close> gives \<^verbatim>\<open>"a  b"\<close>.
\<close>

theorem extract_normalized_counterexample:
  "extract_text [Tag ''div'' [Tag ''p'' [NavigableString ''ab cd'']]] 3 = ''ab '' \<and>
   trailing_ws (extract_text [Tag ''div'' [Tag ''p'' [NavigableString ''ab cd'']]] 3) \<and>
   extract_text [Tag ''body'' [NavigableString ''a  b'']] 20000 = ''a  b'' \<and>
   has_ws_run (extract_text [Tag ''body'' [NavigableString ''a  b'']] 20000)"
  by code_simp


text \<open>
  C3, amended. On every return path the returned string does not start with whitespace,
  and it does not end with whitespace whenever it is shorter than \<^verbatim>\<open>max_chars\<close>. On
  every return path but the body fallback (some \<^verbatim>\<open>article\<close>, \<^verbatim>\<open>div\<close>, \<^verbatim>\<open>section\<close> or
  \<^verbatim>\<open>main\<close> element is left after the removals, or there is no \<^verbatim>\<open>body\<close>) it has no two
  whitespace characters in a row, and its only whitespace character is the space.
\<close>

theorem extract_whitespace_normalized:
  "\<not> leading_ws (extract_text soup max_chars) \<and>
   (int (length (extract_text soup max_chars)) < max_chars \<longrightarrow>
      \<not> trailing_ws (extract_text soup max_chars)) \<and>
   (find_all block_tags (decompose_all removed_tags soup) \<noteq> [] \<or>
    soup_body (decompose_all removed_tags soup) = None \<longrightarrow>
      \<not> has_ws_run (extract_text soup max_chars) \<and>
      (\<forall>c \<in> set (extract_text soup max_chars). is_space c \<longrightarrow> c = CHR '' ''))"
proof -
  obtain s where out: "extract_text soup max_chars = py_prefix max_chars s"
    and lead: "\<not> leading_ws s" and trail: "\<not> trailing_ws s"
    using extract_text_edges by blast
  obtain k where k: "py_prefix max_chars s = take k s"
    using py_prefix_take by blast
  have "\<not> leading_ws (extract_text soup max_chars)"
    unfolding out k using lead leading_ws_take by blast
  moreover have "int (length (extract_text soup max_chars)) < max_chars \<longrightarrow>
      \<not> trailing_ws (extract_text soup max_chars)"
    unfolding out using py_prefix_whole [of max_chars s] trail by auto
  moreover have "find_all block_tags (decompose_all removed_tags soup) \<noteq> [] \<or>
      soup_body (decompose_all removed_tags soup) = None \<longrightarrow>
      \<not> has_ws_run (extract_text soup max_chars) \<and>
      (\<forall>c \<in> set (extract_text soup max_chars). is_space c \<longrightarrow> c = CHR '' '')"
  proof
    assume nb: "find_all block_tags (decompose_all removed_tags soup) \<noteq> [] \<or>
      soup_body (decompose_all removed_tags soup) = None"
    let ?t = "best_text (find_all block_tags (decompose_all removed_tags soup))"
    let ?cleaned = "strip (collapse_ws ?t)"
    have o: "extract_text soup max_chars = py_prefix max_chars ?cleaned"
      using nb by (rule extract_text_not_body)
    obtain j where j: "py_prefix max_chars ?cleaned = take j ?cleaned"
      using py_prefix_take by blast
    have "\<not> has_ws_run ?cleaned"
      using has_ws_run_strip collapse_ws_no_run by blast
    then have "\<not> has_ws_run (take j ?cleaned)"
      using has_ws_run_take by blast
    moreover have "\<forall>c \<in> set (take j ?cleaned). is_space c \<longrightarrow> c = CHR '' ''"
      using set_take_subset [of j ?cleaned] set_strip [of "collapse_ws ?t"]
        collapse_ws_spaces [of _ ?t]
      by blast
    ultimately show "\<not> has_ws_run (extract_text soup max_chars) \<and>
      (\<forall>c \<in> set (extract_text soup max_chars). is_space c \<longrightarrow> c = CHR '' '')"
      unfolding o j by simp
  qed
  ultimately show ?thesis by blast
qed

theorem extract_whitespace_normalized_witness:
  "find_all block_tags (decompose_all removed_tags
      [Tag ''div'' [Tag ''p'' [NavigableString ''  ab   cd  '']]]) \<noteq> [] \<and>
   extract_text [Tag ''div'' [Tag ''p'' [NavigableString ''  ab   cd  '']]] 20000 = ''ab cd'' \<and>
   \<not> has_ws_run (extract_text [Tag ''div'' [Tag ''p'' [NavigableString ''  ab   cd  '']]] 20000) \<and>
   \<not> leading_ws (extract_text [Tag ''div'' [Tag ''p'' [NavigableString ''  ab   cd  '']]] 20000) \<and>
   \<not> trailing_ws (extract_text [Tag ''div'' [Tag ''p'' [NavigableString ''  ab   cd  '']]] 20000) \<and>
   extract_text [Tag ''body'' [NavigableString ''  a  b  '']] 20000 = ''a  b'' \<and>
   \<not> leading_ws (extract_text [Tag ''body'' [NavigableString ''  a  b  '']] 20000) \<and>
   \<not> trailing_ws (extract_text [Tag ''body'' [NavigableString ''  a  b  '']] 20000)"
proof -
  let ?soup = "[Tag ''div'' [Tag ''p'' [NavigableString ''  ab   cd  '']]]"
  let ?page = "[Tag ''body'' [NavigableString ''  a  b  '']]"
  have h: "find_all block_tags (decompose_all removed_tags ?soup) \<noteq> []"
    by code_simp
  have v: "extract_text ?soup 20000 = ''ab cd''"
    by code_simp
  have b: "extract_text ?page 20000 = ''a  b''"
    by code_simp
  have "int (length (extract_text ?soup 20000)) < 20000"
    unfolding v by simp
  moreover have "int (length (extract_text ?page 20000)) < 20000"
    unfolding b by simp
  ultimately show ?thesis
    using extract_whitespace_normalized [of ?soup 20000]
      extract_whitespace_normalized [of ?page 20000] h v b
    by blast
qed

subsection \<open>Length\<close>

text \<open>
  C8. For every page and every positive \<^verbatim>\<open>max_chars\<close>, the string returned has at most
  \<^verbatim>\<open>max_chars\<close> characters, whichever return path is taken.
\<close>

theorem extract_bounded:
  assumes "0 < max_chars"
  shows "int (length (extract_text soup max_chars)) \<le> max_chars"
proof -
  obtain s where "extract_text soup max_chars = py_prefix max_chars s"
    using extract_text_prefix by blast
  with assms length_py_prefix [of max_chars s] show ?thesis by simp
qed

theorem extract_bounded_witness:
  "(0::int) < 5 \<and>
   extract_text [Tag ''div'' [Tag ''p'' [NavigableString ''Hello world.'']]] 5 = ''Hello'' \<and>
   extract_text [Tag ''body'' [NavigableString ''Hello world.'']] 5 = ''Hello'' \<and>
   int (length (extract_text [Tag ''div'' [Tag ''p'' [NavigableString ''Hello world.'']]] 5)) \<le> 5 \<and>
   int (length (extract_text [Tag ''body'' [NavigableString ''Hello world.'']] 5)) \<le> 5"
proof -
  have h: "(0::int) < 5" by simp
  have "extract_text [Tag ''div'' [Tag ''p'' [NavigableString ''Hello world.'']]] 5 = ''Hello''"
    by code_simp
  moreover have "extract_text [Tag ''body'' [NavigableString ''Hello world.'']] 5 = ''Hello''"
    by code_simp
  ultimately show ?thesis
    using h extract_bounded [OF h, of "[Tag ''div'' [Tag ''p'' [NavigableString ''Hello world.'']]]"]
      extract_bounded [OF h, of "[Tag ''body'' [NavigableString ''Hello world.'']]"]
    by blast
qed


subsection \<open>Removed elements\<close>













section \<open>Properties of the route\<close>

lemma api_summarize_fetched:
  assumes "strip (url req) \<noteq> []"
    and "http_get w (strip (url req)) = Fetched code soup"
    and "\<not> raise_for_status code"
    and "extract_text soup 20000 \<noteq> []"
  shows "api_summarize w req =
     (let article = extract_text soup 20000;
          summary0 = (if prefer_hf req
                      then (case hf_summarize w article of Raises \<Rightarrow> None | Returns r \<Rightarrow> r)
                      else None);
          summary = (if falsy summary0 then Some (textrank_summarize article 4) else summary0)
      in Summary article summary
           (hf_available w \<and> prefer_hf req \<and> (summary \<noteq> None \<and> hf_available w)))"
  using assms by (simp add: api_summarize_def extract_article_text_def Let_def)

lemma hello_summary: "textrank_summarize ''Hello world.'' 4 = ''Hello world.''"
  by code_simp

subsection \<open>Failures of the fetch\<close>

text \<open>
  C2, as stated, fails: only \<^verbatim>\<open>requests.HTTPError\<close> is answered with 502. A connection
  failure or a timeout raises another exception of \<^verbatim>\<open>requests\<close> and is answered by the
  general handler with 500; a response whose status is outside 400 to 599 (304 here)
  raises nothing and goes on to the extraction.
\<close>

theorem connection_failure_not_502_counterexample:
  "status (api_summarize
     \<lparr>hf_available = False, hf_generate = (\<lambda>t. Raises), http_get = (\<lambda>u. Fails ConnectionError)\<rparr>
     \<lparr>url = ''http://example.org/a'', prefer_hf = True\<rparr>) = 500 \<and>
   status (api_summarize
     \<lparr>hf_available = False, hf_generate = (\<lambda>t. Raises), http_get = (\<lambda>u. Fails Timeout)\<rparr>
     \<lparr>url = ''http://example.org/a'', prefer_hf = True\<rparr>) = 500 \<and>
   status (api_summarize
     \<lparr>hf_available = False, hf_generate = (\<lambda>t. Raises), http_get = (\<lambda>u. Fetched 304 [])\<rparr>
     \<lparr>url = ''http://example.org/a'', prefer_hf = True\<rparr>) = 422"
  by code_simp


text \<open>
  C2, amended. For a request with a non-empty url: when the fetch yields a response
  with a status from 400 to 599 the answer is 502; when the fetch raises without a
  response (connection failure, timeout) the answer is 500.
\<close>

theorem fetch_failure_status:
  assumes "strip (url req) \<noteq> []"
  shows "(http_get w (strip (url req)) = Fetched code soup \<and> 400 \<le> code \<and> code < 600 \<longrightarrow>
            api_summarize w req = Failure 502 ''failed to fetch url'') \<and>
         (http_get w (strip (url req)) = Fails e \<longrightarrow>
            api_summarize w req = Failure 500 ''internal error'')"
  using assms
  by (simp add: api_summarize_def extract_article_text_def raise_for_status_def Let_def)


theorem fetch_failure_status_witness:
  "strip (url \<lparr>url = '' http://example.org/a '', prefer_hf = True\<rparr>) \<noteq> [] \<and>
   api_summarize
     \<lparr>hf_available = False, hf_generate = (\<lambda>t. Raises), http_get = (\<lambda>u. Fetched 404 [])\<rparr>
     \<lparr>url = '' http://example.org/a '', prefer_hf = True\<rparr> = Failure 502 ''failed to fetch url'' \<and>
   api_summarize
     \<lparr>hf_available = False, hf_generate = (\<lambda>t. Raises), http_get = (\<lambda>u. Fails Timeout)\<rparr>
     \<lparr>url = '' http://example.org/a '', prefer_hf = True\<rparr> = Failure 500 ''internal error''"
proof -
  let ?req = "\<lparr>url = '' http://example.org/a '', prefer_hf = True\<rparr>"
  have h: "strip (url ?req) \<noteq> []"
    by code_simp
  from fetch_failure_status [OF h,
      of "\<lparr>hf_available = False, hf_generate = (\<lambda>t. Raises), http_get = (\<lambda>u. Fetched 404 [])\<rparr>"
         404 "[]"]
    fetch_failure_status [OF h,
      of "\<lparr>hf_available = False, hf_generate = (\<lambda>t. Raises), http_get = (\<lambda>u. Fails Timeout)\<rparr>"
         _ _ Timeout]
    h
  show ?thesis by simp
qed


subsection \<open>The field \<^verbatim>\<open>used_hf\<close>\<close>

text \<open>
  C4. In every 200 answer \<^verbatim>\<open>used_hf\<close> is \<^verbatim>\<open>HF_AVAILABLE and prefer_hf\<close>. In particular it
  is true when the model is loaded and preferred, the model call raised or returned an
  empty summary, and the summary in the answer is the one of \<^verbatim>\<open>textrank_summarize\<close>.
\<close>

theorem used_hf_reports_preference:
  "(api_summarize w req = Summary article summary used \<longrightarrow>
      used = (hf_available w \<and> prefer_hf req)) \<and>
   (strip (url req) \<noteq> [] \<and> http_get w (strip (url req)) = Fetched code soup \<and>
    \<not> raise_for_status code \<and> extract_text soup 20000 \<noteq> [] \<and>
    hf_available w \<and> prefer_hf req \<and>
    (hf_generate w (extract_text soup 20000) = Raises \<or>
     hf_generate w (extract_text soup 20000) = Returns []) \<longrightarrow>
      api_summarize w req =
        Summary (extract_text soup 20000)
          (Some (textrank_summarize (extract_text soup 20000) 4)) True)"
proof -
  have "api_summarize w req = Summary article summary used \<longrightarrow>
      used = (hf_available w \<and> prefer_hf req)"
    by (auto simp: api_summarize_def Let_def falsy_def
          split: if_splits sum.splits exc.splits option.splits)
  moreover have "strip (url req) \<noteq> [] \<and> http_get w (strip (url req)) = Fetched code soup \<and>
    \<not> raise_for_status code \<and> extract_text soup 20000 \<noteq> [] \<and>
    hf_available w \<and> prefer_hf req \<and>
    (hf_generate w (extract_text soup 20000) = Raises \<or>
     hf_generate w (extract_text soup 20000) = Returns []) \<longrightarrow>
      api_summarize w req =
        Summary (extract_text soup 20000)
          (Some (textrank_summarize (extract_text soup 20000) 4)) True"
    by (auto simp: api_summarize_fetched hf_summarize_def falsy_def Let_def)
  ultimately show ?thesis by blast
qed


theorem used_hf_reports_preference_witness:
  "api_summarize
     \<lparr>hf_available = True, hf_generate = (\<lambda>t. Raises),
      http_get = (\<lambda>u. Fetched 200 [Tag ''div'' [Tag ''p'' [NavigableString ''Hello world.'']]])\<rparr>
     \<lparr>url = ''http://example.org/a'', prefer_hf = True\<rparr>
   = Summary ''Hello world.'' (Some ''Hello world.'') True \<and>
   textrank_summarize ''Hello world.'' 4 = ''Hello world.''"
proof -
  let ?soup = "[Tag ''div'' [Tag ''p'' [NavigableString ''Hello world.'']]]"
  let ?w = "\<lparr>hf_available = True, hf_generate = (\<lambda>t. Raises),
             http_get = (\<lambda>u. Fetched 200 ?soup)\<rparr>"
  let ?req = "\<lparr>url = ''http://example.org/a'', prefer_hf = True\<rparr>"
  have u: "strip (url ?req) \<noteq> []"
    by code_simp
  have a: "extract_text ?soup 20000 = ''Hello world.''"
    by (rule hello_page_text)
  have s: "textrank_summarize ''Hello world.'' 4 = ''Hello world.''"
    by (rule hello_summary)
  have r: "\<not> raise_for_status 200"
    by (simp add: raise_for_status_def)
  have "api_summarize ?w ?req =
          Summary (extract_text ?soup 20000)
            (Some (textrank_summarize (extract_text ?soup 20000) 4)) True"
    using used_hf_reports_preference [of ?w ?req _ _ _ 200 ?soup] u r a by simp
  then show ?thesis
    unfolding a s by simp
qed


subsection \<open>Falling back to the frequency summarizer\<close>

text \<open>
  C9. When the page was fetched and its text is not empty, the caller prefers the model,
  and \<^verbatim>\<open>hf_summarize\<close> raises, returns None (model not loaded) or returns an empty
  string, the answer is a 200 whose summary is \<^verbatim>\<open>textrank_summarize(article, 4)\<close>.
\<close>

theorem model_failure_falls_back:
  assumes "strip (url req) \<noteq> []"
    and "http_get w (strip (url req)) = Fetched code soup"
    and "\<not> raise_for_status code"
    and "extract_text soup 20000 = article"
    and "article \<noteq> []"
    and "prefer_hf req"
    and "hf_summarize w article = Raises \<or> hf_summarize w article = Returns None \<or>
         hf_summarize w article = Returns (Some [])"
  shows "api_summarize w req =
           Summary article (Some (textrank_summarize article 4)) (hf_available w) \<and>
         status (api_summarize w req) = 200"
proof -
  have "api_summarize w req =
           Summary article (Some (textrank_summarize article 4)) (hf_available w)"
    using assms by (auto simp: api_summarize_fetched falsy_def Let_def)
  then show ?thesis by simp
qed

theorem model_failure_falls_back_witness:
  "api_summarize
     \<lparr>hf_available = False, hf_generate = (\<lambda>t. Returns ''unused''),
      http_get = (\<lambda>u. Fetched 200 [Tag ''div'' [Tag ''p'' [NavigableString ''Hello world.'']]])\<rparr>
     \<lparr>url = ''http://example.org/a'', prefer_hf = True\<rparr>
   = Summary ''Hello world.'' (Some ''Hello world.'') False \<and>
   api_summarize
     \<lparr>hf_available = True, hf_generate = (\<lambda>t. Raises),
      http_get = (\<lambda>u. Fetched 200 [Tag ''div'' [Tag ''p'' [NavigableString ''Hello world.'']]])\<rparr>
     \<lparr>url = ''http://example.org/a'', prefer_hf = True\<rparr>
   = Summary ''Hello world.'' (Some ''Hello world.'') True"
proof -
  let ?soup = "[Tag ''div'' [Tag ''p'' [NavigableString ''Hello world.'']]]"
  let ?w1 = "\<lparr>hf_available = False, hf_generate = (\<lambda>t. Returns ''unused''),
             http_get = (\<lambda>u. Fetched 200 ?soup)\<rparr>"
  let ?w2 = "\<lparr>hf_available = True, hf_generate = (\<lambda>t. Raises),
             http_get = (\<lambda>u. Fetched 200 ?soup)\<rparr>"
  let ?req = "\<lparr>url = ''http://example.org/a'', prefer_hf = True\<rparr>"
  have u: "strip (url ?req) \<noteq> []"
    by code_simp
  have a: "extract_text ?soup 20000 = ''Hello world.''"
    by (rule hello_page_text)
  have s: "textrank_summarize ''Hello world.'' 4 = ''Hello world.''"
    by (rule hello_summary)
  have r: "\<not> raise_for_status 200"
    by (simp add: raise_for_status_def)
  have n: "''Hello world.'' \<noteq> []"
    by simp
  have p: "prefer_hf ?req"
    by simp
  have f1: "http_get ?w1 (strip (url ?req)) = Fetched 200 ?soup"
    by simp
  have f2: "http_get ?w2 (strip (url ?req)) = Fetched 200 ?soup"
    by simp
  have m1: "hf_summarize ?w1 ''Hello world.'' = Raises \<or>
            hf_summarize ?w1 ''Hello world.'' = Returns None \<or>
            hf_summarize ?w1 ''Hello world.'' = Returns (Some [])"
    by (simp add: hf_summarize_def)
  have m2: "hf_summarize ?w2 ''Hello world.'' = Raises \<or>
            hf_summarize ?w2 ''Hello world.'' = Returns None \<or>
            hf_summarize ?w2 ''Hello world.'' = Returns (Some [])"
    by (simp add: hf_summarize_def)
  from model_failure_falls_back [OF u f1 r a n p m1]
       model_failure_falls_back [OF u f2 r a n p m2]
  show ?thesis
    unfolding s by simp
qed

end
